theory Spec2Isabelle
  imports Main "HOL-Library.Word" "HOL-Library.AList"
begin

section \<open>Keyraken: the keyring manager of \<^verbatim>\<open>src/keyraken.py\<close>\<close>

text \<open>
  The development embeds the methods of \<^verbatim>\<open>KeyringManager\<close> as HOL functions and
  proves the properties its specification states about them.

  Python values are represented as follows.
  \<^item> \<^verbatim>\<open>bytes\<close> is a list of 8-bit words.
  \<^item> A \<^verbatim>\<open>str\<close> that passes through the UTF-8 codec (an attribute value) is the list
    of its code points. A \<^verbatim>\<open>str\<close> that is only stored or compared (a key, a label,
    a path, a secret, a message) is a \<open>string\<close>.
  \<^item> A \<^verbatim>\<open>dict\<close> is the list of its entries in insertion order, with
    \<open>map_of\<close> for \<^verbatim>\<open>d.get(k)\<close>, \<open>AList.update\<close> for \<^verbatim>\<open>d[k] = v\<close> and
    \<open>AList.delete\<close> for \<^verbatim>\<open>del d[k]\<close>. The keys of a dict are distinct; theorems
    that depend on it say so.
  \<^item> An exception is a value of type \<open>error\<close>; a method that mutates the collection
    returns the collection it leaves behind next to its result, also when it raises.
\<close>

subsection \<open>Values and errors\<close>

type_synonym byte = "8 word"
type_synonym ustr = "nat list"

text \<open>An attribute value: \<^verbatim>\<open>Union[str, bytes]\<close>.\<close>

datatype val = Str ustr | Bytes "byte list"

type_synonym attrs = "(string \<times> val) list"

text \<open>
  \<open>ValueError\<close> carries its message; the two Unicode errors are raised by the codec;
  \<open>ItemNotFoundException\<close> is the service's answer to a handle whose item is gone.
\<close>

datatype error =
    ValueError string
  | UnicodeDecodeError
  | UnicodeEncodeError
  | ItemNotFoundException

subsection \<open>The UTF-8 codec of the interpreter\<close>

text \<open>
  \<^verbatim>\<open>bytes.decode('utf-8')\<close> and \<^verbatim>\<open>bytes(s, 'utf-8')\<close> are built into Python. Both are
  strict: the decoder accepts the well-formed sequences of RFC 3629 only (shortest form,
  no surrogate, at most U+10FFFF), the encoder refuses a surrogate code point.
  \<open>utf8_decode_char b0 bs\<close> reads the character that starts with \<open>b0\<close> and returns it
  with the bytes that follow it.
\<close>

definition is_cont :: "byte \<Rightarrow> bool" where
  "is_cont b = (0x80 \<le> b \<and> b \<le> 0xBF)"

definition cont_bits :: "byte \<Rightarrow> nat" where
  "cont_bits b = unat b - 0x80"

definition utf8_decode_char :: "byte \<Rightarrow> byte list \<Rightarrow> (nat \<times> byte list) option" where
  "utf8_decode_char b0 bs =
    (if b0 < 0x80 then Some (unat b0, bs)
     else if 0xC2 \<le> b0 \<and> b0 \<le> 0xDF then
       (case bs of
          b1 # r \<Rightarrow>
            if is_cont b1 then Some ((unat b0 - 0xC0) * 64 + cont_bits b1, r) else None
        | _ \<Rightarrow> None)
     else if 0xE0 \<le> b0 \<and> b0 \<le> 0xEF then
       (case bs of
          b1 # b2 # r \<Rightarrow>
            if (if b0 = 0xE0 then 0xA0 else 0x80) \<le> b1
               \<and> b1 \<le> (if b0 = 0xED then 0x9F else 0xBF) \<and> is_cont b2
            then Some ((unat b0 - 0xE0) * 4096 + cont_bits b1 * 64 + cont_bits b2, r)
            else None
        | _ \<Rightarrow> None)
     else if 0xF0 \<le> b0 \<and> b0 \<le> 0xF4 then
       (case bs of
          b1 # b2 # b3 # r \<Rightarrow>
            if (if b0 = 0xF0 then 0x90 else 0x80) \<le> b1
               \<and> b1 \<le> (if b0 = 0xF4 then 0x8F else 0xBF) \<and> is_cont b2 \<and> is_cont b3
            then Some ((unat b0 - 0xF0) * 262144 + cont_bits b1 * 4096
                         + cont_bits b2 * 64 + cont_bits b3, r)
            else None
        | _ \<Rightarrow> None)
     else None)"

function utf8_decode :: "byte list \<Rightarrow> ustr option" where
  "utf8_decode [] = Some []"
| "utf8_decode (b0 # bs) =
    (case utf8_decode_char b0 bs of
       None \<Rightarrow> None
     | Some (c, r) \<Rightarrow> map_option ((#) c) (utf8_decode r))"
  by pat_completeness auto
termination
  by (relation "measure length")
    (auto simp: utf8_decode_char_def split: if_split_asm list.split_asm)

definition utf8_encode_char :: "nat \<Rightarrow> byte list option" where
  "utf8_encode_char c =
    (if c < 0x80 then Some [of_nat c]
     else if c < 0x800 then Some [of_nat (0xC0 + c div 64), of_nat (0x80 + c mod 64)]
     else if c < 0x10000 then
       (if 0xD800 \<le> c \<and> c \<le> 0xDFFF then None
        else Some [of_nat (0xE0 + c div 4096), of_nat (0x80 + c div 64 mod 64),
                   of_nat (0x80 + c mod 64)])
     else if c < 0x110000 then
       Some [of_nat (0xF0 + c div 262144), of_nat (0x80 + c div 4096 mod 64),
             of_nat (0x80 + c div 64 mod 64), of_nat (0x80 + c mod 64)]
     else None)"

fun utf8_encode :: "ustr \<Rightarrow> byte list option" where
  "utf8_encode [] = Some []"
| "utf8_encode (c # cs) =
    (case utf8_encode_char c of
       None \<Rightarrow> None
     | Some bs \<Rightarrow> map_option ((@) bs) (utf8_encode cs))"

text \<open>\<^verbatim>\<open>v.decode('utf-8')\<close> and \<^verbatim>\<open>bytes(v, 'utf-8')\<close>, with their exceptions.\<close>

definition bytes_decode :: "byte list \<Rightarrow> error + ustr" where
  "bytes_decode b = (case utf8_decode b of None \<Rightarrow> Inl UnicodeDecodeError | Some s \<Rightarrow> Inr s)"

definition str_encode :: "ustr \<Rightarrow> error + byte list" where
  "str_encode s = (case utf8_encode s of None \<Rightarrow> Inl UnicodeEncodeError | Some b \<Rightarrow> Inr b)"

subsection \<open>The attribute codec\<close>

text \<open>
  A dict comprehension \<^verbatim>\<open>{k: f(v) for k, v in d.items()}\<close>: the entries are visited in
  order and the first exception ends the comprehension.
\<close>

fun dict_comp :: "(val \<Rightarrow> error + val) \<Rightarrow> attrs \<Rightarrow> error + attrs" where
  "dict_comp f [] = Inr []"
| "dict_comp f ((k, v) # kvs) =
    (case f v of
       Inl e \<Rightarrow> Inl e
     | Inr v' \<Rightarrow>
        (case dict_comp f kvs of
           Inl e \<Rightarrow> Inl e
         | Inr r \<Rightarrow> Inr ((k, v') # r)))"

text \<open>
  \<^verbatim>\<open>_encode_attributes\<close>:
  \<^verbatim>\<open>{k: (v.decode('utf-8') if isinstance(v, bytes) else v) for k, v in attributes.items()}\<close>
\<close>

definition encode_value :: "val \<Rightarrow> error + val" where
  "encode_value v =
     (case v of
        Bytes b \<Rightarrow> (case bytes_decode b of Inl e \<Rightarrow> Inl e | Inr s \<Rightarrow> Inr (Str s))
      | Str s \<Rightarrow> Inr (Str s))"

definition encode_attributes :: "attrs \<Rightarrow> error + attrs" where
  "encode_attributes attributes = dict_comp encode_value attributes"

text \<open>
  \<^verbatim>\<open>_decode_attributes\<close>:
  \<^verbatim>\<open>{k: (bytes(v, 'utf-8') if isinstance(v, str) else v) for k, v in attributes.items()}\<close>
\<close>

definition decode_value :: "val \<Rightarrow> error + val" where
  "decode_value v =
     (case v of
        Str s \<Rightarrow> (case str_encode s of Inl e \<Rightarrow> Inl e | Inr b \<Rightarrow> Inr (Bytes b))
      | Bytes b \<Rightarrow> Inr (Bytes b))"

definition decode_attributes :: "attrs \<Rightarrow> error + attrs" where
  "decode_attributes attributes = dict_comp decode_value attributes"

text \<open>
  The specification's ``valid UTF-8'': the value is a byte sequence that the strict
  decoder accepts.
\<close>

fun valid_utf8 :: "val \<Rightarrow> bool" where
  "valid_utf8 (Bytes b) = (utf8_decode b \<noteq> None)"
| "valid_utf8 (Str s) = False"

subsection \<open>The secret service\<close>

text \<open>
  Modelled from the spec: the secret-storage service (the \<^verbatim>\<open>secretstorage\<close> package
  and the D-Bus service behind it) is an external collaborator and not part of the
  repository. Its model follows the interface contract of the specification
  (\<^verbatim>\<open>Collection.allItems\<close>, \<^verbatim>\<open>Item.attributes\<close>, \<^verbatim>\<open>Item.setAttributes\<close>,
  \<^verbatim>\<open>Item.setSecret\<close>, \<^verbatim>\<open>Item.delete\<close>, \<^verbatim>\<open>Collection.isLocked\<close>,
  \<^verbatim>\<open>Collection.unlock\<close>): a collection is the list of its items in enumeration order,
  an item is addressed by its path, a setter changes the one field of the item at
  that path and \<^verbatim>\<open>delete\<close> removes the item at that path. The item operations are
  modelled on an unlocked collection, which is where the command line uses them.
\<close>

record item =
  item_path :: string
  item_label :: string
  item_attributes :: attrs
  item_secret :: string

record collection =
  coll_items :: "item list"
  coll_locked :: bool
  coll_unlock_requests :: nat

text \<open>Modelled from the spec: \<^verbatim>\<open>collection.get_all_items()\<close>.\<close>

definition get_all_items :: "collection \<Rightarrow> item list" where
  "get_all_items c = coll_items c"

text \<open>Modelled from the spec: the item that a path addresses.\<close>

definition find_item :: "collection \<Rightarrow> string \<Rightarrow> item option" where
  "find_item c p = find (\<lambda>x. item_path x = p) (coll_items c)"

text \<open>Modelled from the spec: \<^verbatim>\<open>item.get_attributes()\<close>, read from the service.\<close>

definition item_get_attributes :: "collection \<Rightarrow> string \<Rightarrow> error + attrs" where
  "item_get_attributes c p =
     (case find_item c p of
        None \<Rightarrow> Inl ItemNotFoundException
      | Some x \<Rightarrow> Inr (item_attributes x))"

text \<open>Modelled from the spec: \<^verbatim>\<open>item.set_attributes(attributes)\<close>.\<close>

definition item_set_attributes :: "string \<Rightarrow> attrs \<Rightarrow> collection \<Rightarrow> collection" where
  "item_set_attributes p a c =
     c\<lparr>coll_items :=
         map (\<lambda>x. if item_path x = p then x\<lparr>item_attributes := a\<rparr> else x) (coll_items c)\<rparr>"

text \<open>Modelled from the spec: \<^verbatim>\<open>item.set_secret(secret)\<close>.\<close>

definition item_set_secret :: "string \<Rightarrow> string \<Rightarrow> collection \<Rightarrow> collection" where
  "item_set_secret p s c =
     c\<lparr>coll_items :=
         map (\<lambda>x. if item_path x = p then x\<lparr>item_secret := s\<rparr> else x) (coll_items c)\<rparr>"

text \<open>Modelled from the spec: \<^verbatim>\<open>item.delete()\<close>.\<close>

definition item_delete :: "string \<Rightarrow> collection \<Rightarrow> collection" where
  "item_delete p c = c\<lparr>coll_items := filter (\<lambda>x. item_path x \<noteq> p) (coll_items c)\<rparr>"

text \<open>
  Modelled from the spec: \<^verbatim>\<open>collection.unlock()\<close>. The prompt belongs to the service and
  its outcome to the user, so the outcome is a parameter: whether the prompt was
  dismissed and whether the collection is locked afterwards. Every request is counted.
\<close>

record unlock_answer =
  ans_dismissed :: bool
  ans_locked :: bool

definition service_unlock :: "unlock_answer \<Rightarrow> collection \<Rightarrow> bool \<times> collection" where
  "service_unlock answer c =
     (ans_dismissed answer,
      c\<lparr>coll_locked := ans_locked answer,
        coll_unlock_requests := Suc (coll_unlock_requests c)\<rparr>)"

subsection \<open>The keyring manager\<close>

text \<open>
  \<^verbatim>\<open>_unlock\<close>. The result is the exception or \<open>()\<close>, the collection afterwards and the
  lines written to standard error.
\<close>

definition still_locked_message :: "string \<Rightarrow> string" where
  "still_locked_message collection_name =
     ''Collection '' @ [CHR 0x27] @ collection_name @ [CHR 0x27]
       @ '' is still locked. Try again.''"

definition unlock ::
  "string \<Rightarrow> unlock_answer \<Rightarrow> collection \<Rightarrow> (error + unit) \<times> collection \<times> string list" where
  "unlock collection_name answer c =
     (if coll_locked c then
        (case service_unlock answer c of
           (dismissed, c') \<Rightarrow>
             (let err =
                    [''Collection is locked. The Secret Service controls the prompt.'',
                     ''Unlocking will continue via service provided GUI.'']
                    @ (if dismissed then [''Unlock prompt was dismissed by user.''] else [])
              in if coll_locked c'
                 then (Inl (ValueError (still_locked_message collection_name)), c', err)
                 else (Inr (), c', err)))
      else (Inr (), c, []))"

text \<open>
  The loop of \<^verbatim>\<open>search_items\<close>: \<open>matched_items\<close> is the list built so far, and
  \<^verbatim>\<open>matched_items.append(item)\<close> adds at its end. A \<open>logic\<close> other than \<^verbatim>\<open>'AND'\<close>
  and \<^verbatim>\<open>'OR'\<close> appends nothing.
\<close>

fun search_loop ::
  "attrs \<Rightarrow> string option \<Rightarrow> string option \<Rightarrow> string \<Rightarrow> item list \<Rightarrow> item list \<Rightarrow> item list" where
  "search_loop encoded_attributes label path logic [] matched_items = matched_items"
| "search_loop encoded_attributes label path logic (item # items) matched_items =
    (let matches_attributes =
           list_all (\<lambda>(k, v). map_of (item_attributes item) k = Some v) encoded_attributes;
         matches_label = (label = None \<or> label = Some (item_label item));
         matches_path = (path = None \<or> path = Some (item_path item))
     in if logic = ''AND'' then
          (if matches_attributes \<and> matches_label \<and> matches_path
           then search_loop encoded_attributes label path logic items (matched_items @ [item])
           else search_loop encoded_attributes label path logic items matched_items)
        else if logic = ''OR'' then
          (if matches_attributes \<or> matches_label \<or> matches_path
           then search_loop encoded_attributes label path logic items (matched_items @ [item])
           else search_loop encoded_attributes label path logic items matched_items)
        else search_loop encoded_attributes label path logic items matched_items)"

text \<open>\<^verbatim>\<open>search_items\<close>.\<close>

definition search_items ::
  "attrs option \<Rightarrow> string option \<Rightarrow> string option \<Rightarrow> string \<Rightarrow> collection \<Rightarrow> error + item list" where
  "search_items attributes label path logic c =
     (let attributes = (case attributes of None \<Rightarrow> [] | Some a \<Rightarrow> a)
      in case encode_attributes attributes of
           Inl e \<Rightarrow> Inl e
         | Inr encoded_attributes \<Rightarrow>
             Inr (search_loop encoded_attributes label path logic (get_all_items c) []))"

text \<open>
  \<^verbatim>\<open>{**current_attributes, **encoded_new_attributes}\<close>: the entries of the second dict
  are stored into the first, in order.
\<close>

definition dict_merge :: "attrs \<Rightarrow> attrs \<Rightarrow> attrs" where
  "dict_merge current new = fold (\<lambda>(k, v) d. AList.update k v d) new current"

text \<open>
  \<^verbatim>\<open>update_item\<close>. \<^verbatim>\<open>if new_secret:\<close> and \<^verbatim>\<open>if new_attributes:\<close> are truth tests:
  \<^verbatim>\<open>None\<close>, the empty string and the empty dict are false.
\<close>

definition update_item ::
  "attrs option \<Rightarrow> string option \<Rightarrow> attrs option \<Rightarrow> string option \<Rightarrow> string option \<Rightarrow> string
     \<Rightarrow> bool \<Rightarrow> collection \<Rightarrow> (error + unit) \<times> collection" where
  "update_item attributes new_secret new_attributes label path logic merge c =
     (case search_items attributes label path logic c of
        Inl e \<Rightarrow> (Inl e, c)
      | Inr [] \<Rightarrow> (Inl (ValueError ''Item not found''), c)
      | Inr (item # _) \<Rightarrow>
          (let c1 = (case new_secret of
                       None \<Rightarrow> c
                     | Some s \<Rightarrow> if s \<noteq> [] then item_set_secret (item_path item) s c else c)
           in case new_attributes of
                None \<Rightarrow> (Inr (), c1)
              | Some na \<Rightarrow>
                  if na \<noteq> [] then
                    (case encode_attributes na of
                       Inl e \<Rightarrow> (Inl e, c1)
                     | Inr encoded_new_attributes \<Rightarrow>
                         if merge then
                           (case item_get_attributes c1 (item_path item) of
                              Inl e \<Rightarrow> (Inl e, c1)
                            | Inr current_attributes \<Rightarrow>
                                (Inr (),
                                 item_set_attributes (item_path item)
                                   (dict_merge current_attributes encoded_new_attributes) c1))
                         else
                           (Inr (),
                            item_set_attributes (item_path item) encoded_new_attributes c1))
                  else (Inr (), c1)))"

text \<open>
  The loop of \<^verbatim>\<open>delete_item\<close> over the keys of the encoded mapping:
  \<^verbatim>\<open>if attr in current_attributes: del current_attributes[attr]\<close>.
\<close>

fun delete_loop :: "string list \<Rightarrow> attrs \<Rightarrow> attrs" where
  "delete_loop [] current_attributes = current_attributes"
| "delete_loop (attr # rest) current_attributes =
    (if attr \<in> set (map fst current_attributes)
     then delete_loop rest (AList.delete attr current_attributes)
     else delete_loop rest current_attributes)"

text \<open>\<^verbatim>\<open>delete_item\<close>. \<^verbatim>\<open>if delete_attributes:\<close> is a truth test as well.\<close>

definition delete_item ::
  "attrs option \<Rightarrow> string option \<Rightarrow> string option \<Rightarrow> string \<Rightarrow> attrs option \<Rightarrow> collection
     \<Rightarrow> (error + unit) \<times> collection" where
  "delete_item attributes label path logic delete_attributes c =
     (case search_items attributes label path logic c of
        Inl e \<Rightarrow> (Inl e, c)
      | Inr [] \<Rightarrow> (Inl (ValueError ''Item not found''), c)
      | Inr (item # _) \<Rightarrow>
          (case delete_attributes of
             None \<Rightarrow> (Inr (), item_delete (item_path item) c)
           | Some da \<Rightarrow>
               if da \<noteq> [] then
                 (case encode_attributes da of
                    Inl e \<Rightarrow> (Inl e, c)
                  | Inr encoded_delete_attributes \<Rightarrow>
                      (case item_get_attributes c (item_path item) of
                         Inl e \<Rightarrow> (Inl e, c)
                       | Inr current_attributes \<Rightarrow>
                           (Inr (),
                            item_set_attributes (item_path item)
                              (delete_loop (map fst encoded_delete_attributes)
                                 current_attributes)
                              c)))
               else (Inr (), item_delete (item_path item) c)))"

text \<open>
  \<^verbatim>\<open>read_item\<close>. A record is the dict with the keys \<^verbatim>\<open>label\<close>, \<^verbatim>\<open>attributes\<close> and
  \<^verbatim>\<open>secret\<close>; the result is \<^verbatim>\<open>None\<close>, one record or a list of records.
\<close>

record entry =
  entry_label :: string
  entry_attributes :: attrs
  entry_secret :: string

datatype read_result = One entry | Many "entry list"

definition item_entry :: "item \<Rightarrow> error + entry" where
  "item_entry item =
     (case decode_attributes (item_attributes item) of
        Inl e \<Rightarrow> Inl e
      | Inr a \<Rightarrow>
          Inr \<lparr>entry_label = item_label item, entry_attributes = a,
               entry_secret = item_secret item\<rparr>)"

fun item_entries :: "item list \<Rightarrow> error + entry list" where
  "item_entries [] = Inr []"
| "item_entries (item # items) =
    (case item_entry item of
       Inl e \<Rightarrow> Inl e
     | Inr r \<Rightarrow>
        (case item_entries items of
           Inl e \<Rightarrow> Inl e
         | Inr rs \<Rightarrow> Inr (r # rs)))"

definition read_item ::
  "attrs option \<Rightarrow> string option \<Rightarrow> string option \<Rightarrow> string \<Rightarrow> bool \<Rightarrow> collection
     \<Rightarrow> error + read_result option" where
  "read_item attributes label path logic multiple c =
     (case search_items attributes label path logic c of
        Inl e \<Rightarrow> Inl e
      | Inr [] \<Rightarrow> Inr None
      | Inr (item # items) \<Rightarrow>
          if multiple then
            (case item_entries (item # items) of
               Inl e \<Rightarrow> Inl e
             | Inr result \<Rightarrow> Inr (Some (Many result)))
          else
            (case item_entry item of
               Inl e \<Rightarrow> Inl e
             | Inr r \<Rightarrow> Inr (Some (One r))))"

subsection \<open>The specification's matcher\<close>

text \<open>
  The three facts of the specification and its two combinators, written from its
  words: every key of the encoded predicate attributes is present in the item's
  attributes with an equal value; an unset label or path is true, a set one is exact
  equality.
\<close>

datatype logic = ALL_OF | ANY_OF

definition attrsMatch :: "attrs \<Rightarrow> item \<Rightarrow> bool" where
  "attrsMatch encoded it =
     (\<forall>k \<in> set (map fst encoded). map_of (item_attributes it) k = map_of encoded k)"

definition labelMatch :: "string option \<Rightarrow> item \<Rightarrow> bool" where
  "labelMatch label it = (case label of None \<Rightarrow> True | Some l \<Rightarrow> l = item_label it)"

definition pathMatch :: "string option \<Rightarrow> item \<Rightarrow> bool" where
  "pathMatch path it = (case path of None \<Rightarrow> True | Some p \<Rightarrow> p = item_path it)"

fun spec_matches :: "logic \<Rightarrow> attrs \<Rightarrow> string option \<Rightarrow> string option \<Rightarrow> item \<Rightarrow> bool" where
  "spec_matches ALL_OF encoded label path it =
     (attrsMatch encoded it \<and> labelMatch label it \<and> pathMatch path it)"
| "spec_matches ANY_OF encoded label path it =
     (attrsMatch encoded it \<or> labelMatch label it \<or> pathMatch path it)"

text \<open>The command line's \<^verbatim>\<open>--logic\<close> values for the two combinators.\<close>

fun logic_name :: "logic \<Rightarrow> string" where
  "logic_name ALL_OF = ''AND''"
| "logic_name ANY_OF = ''OR''"

subsection \<open>A collection to evaluate on\<close>

text \<open>
  Three items: two share the label \<^verbatim>\<open>mail\<close>, the attribute values are the texts
  \<^verbatim>\<open>v1\<close> and \<^verbatim>\<open>v2\<close>.
\<close>

definition item1 :: item where
  "item1 = \<lparr>item_path = ''/c/1'', item_label = ''mail'',
             item_attributes = [(''k1'', Str [0x76, 0x31])], item_secret = ''s1''\<rparr>"

definition item2 :: item where
  "item2 = \<lparr>item_path = ''/c/2'', item_label = ''mail'',
             item_attributes = [(''k1'', Str [0x76, 0x31]), (''k2'', Str [0x76, 0x32])],
             item_secret = ''s2''\<rparr>"

definition item3 :: item where
  "item3 = \<lparr>item_path = ''/c/3'', item_label = ''web'',
             item_attributes = [(''k2'', Str [0x76, 0x32])], item_secret = ''s3''\<rparr>"

definition demo :: collection where
  "demo = \<lparr>coll_items = [item1, item2, item3], coll_locked = False,
            coll_unlock_requests = 0\<rparr>"

section \<open>Properties of the codec\<close>

text \<open>The equations that evaluate the codec and the example collection.\<close>

lemmas demo_defs = demo_def item1_def item2_def item3_def

lemmas codec_defs =
  encode_attributes_def decode_attributes_def encode_value_def decode_value_def
  bytes_decode_def str_encode_def utf8_decode_char_def utf8_encode_char_def is_cont_def
  cont_bits_def

text \<open>
  The codec on known encodings: U+20AC is \<^verbatim>\<open>E2 82 AC\<close> and U+1F600 is
  \<^verbatim>\<open>F0 9F 98 80\<close>; an overlong form, an encoded surrogate, a code point beyond
  U+10FFFF and a truncated sequence are refused, and so is a surrogate code point.
\<close>

lemma utf8_examples:
  "utf8_decode [0xE2, 0x82, 0xAC] = Some [0x20AC]"
  "utf8_encode [0x20AC] = Some [0xE2, 0x82, 0xAC]"
  "utf8_decode [0xF0, 0x9F, 0x98, 0x80] = Some [0x1F600]"
  "utf8_encode [0x1F600] = Some [0xF0, 0x9F, 0x98, 0x80]"
  "utf8_decode [0xC0, 0x80] = None"
  "utf8_decode [0xED, 0xA0, 0x80] = None"
  "utf8_decode [0xF4, 0x90, 0x80, 0x80] = None"
  "utf8_decode [0xE2, 0x82] = None"
  "utf8_encode [0xD800] = None"
  by (simp_all add: codec_defs)

text \<open>
  Decoding arithmetic: a code point assembled from a lead value and six-bit groups
  gives the groups back under \<open>div\<close> and \<open>mod\<close>, and lies in the range of its
  length.
\<close>

lemma sextet2:
  fixes a d :: nat
  assumes "d < 64"
  shows "(a * 64 + d) div 64 = a" "(a * 64 + d) mod 64 = d"
  using assms by simp_all

lemma sextet3:
  fixes a d1 d2 :: nat
  assumes "d1 < 64" "d2 < 64"
  shows "(a * 4096 + d1 * 64 + d2) div 4096 = a"
    "(a * 4096 + d1 * 64 + d2) div 64 mod 64 = d1"
    "(a * 4096 + d1 * 64 + d2) mod 64 = d2"
proof -
  let ?c = "a * 4096 + d1 * 64 + d2"
  have e: "?c = (a * 64 + d1) * 64 + d2" by simp
  have q: "?c div 64 = a * 64 + d1"
    unfolding e by (rule sextet2(1) [OF assms(2)])
  show "?c div 64 mod 64 = d1"
    unfolding q by (rule sextet2(2) [OF assms(1)])
  show "?c mod 64 = d2"
    unfolding e by (rule sextet2(2) [OF assms(2)])
  have "?c div 4096 = ?c div 64 div 64"
    by (simp add: div_mult2_eq)
  then show "?c div 4096 = a"
    unfolding q by (simp only: sextet2(1) [OF assms(1)])
qed

lemma sextet4:
  fixes a d1 d2 d3 :: nat
  assumes "d1 < 64" "d2 < 64" "d3 < 64"
  shows "(a * 262144 + d1 * 4096 + d2 * 64 + d3) div 262144 = a"
    "(a * 262144 + d1 * 4096 + d2 * 64 + d3) div 4096 mod 64 = d1"
    "(a * 262144 + d1 * 4096 + d2 * 64 + d3) div 64 mod 64 = d2"
    "(a * 262144 + d1 * 4096 + d2 * 64 + d3) mod 64 = d3"
proof -
  let ?c = "a * 262144 + d1 * 4096 + d2 * 64 + d3"
  have e: "?c = (a * 4096 + d1 * 64 + d2) * 64 + d3" by simp
  have q1: "?c div 64 = a * 4096 + d1 * 64 + d2"
    unfolding e by (rule sextet2(1) [OF assms(3)])
  show "?c mod 64 = d3"
    unfolding e by (rule sextet2(2) [OF assms(3)])
  show "?c div 64 mod 64 = d2"
    unfolding q1 by (rule sextet3(3) [OF assms(1,2)])
  have "?c div 4096 = ?c div 64 div 64" by (simp add: div_mult2_eq)
  then have q2: "?c div 4096 = (a * 4096 + d1 * 64 + d2) div 64"
    unfolding q1 .
  show "?c div 4096 mod 64 = d1"
    unfolding q2 by (rule sextet3(2) [OF assms(1,2)])
  have "?c div 262144 = ?c div 64 div 4096" by (simp add: div_mult2_eq)
  then show "?c div 262144 = a"
    unfolding q1 by (simp only: sextet3(1) [OF assms(1,2)])
qed

lemma range3:
  fixes a d1 d2 :: nat
  assumes "a \<le> 15" "d1 < 64" "d2 < 64" "a = 0 \<longrightarrow> 32 \<le> d1" "a = 13 \<longrightarrow> d1 < 32"
  shows "0x800 \<le> a * 4096 + d1 * 64 + d2"
    and "a * 4096 + d1 * 64 + d2 < 0x10000"
    and "a * 4096 + d1 * 64 + d2 < 0xD800 \<or> 0xDFFF < a * 4096 + d1 * 64 + d2"
proof -
  show "0x800 \<le> a * 4096 + d1 * 64 + d2"
  proof (cases "a = 0")
    case True
    with assms show ?thesis by simp
  next
    case False
    then have "1 \<le> a" by simp
    then have "4096 \<le> a * 4096" by simp
    then show ?thesis by simp
  qed
  have "a * 4096 \<le> 15 * 4096" using assms(1) by simp
  moreover have "d1 * 64 \<le> 63 * 64" using assms(2) by simp
  ultimately show "a * 4096 + d1 * 64 + d2 < 0x10000" using assms(3) by simp
  consider "a \<le> 12" | "a = 13" | "14 \<le> a" by linarith
  then show "a * 4096 + d1 * 64 + d2 < 0xD800 \<or> 0xDFFF < a * 4096 + d1 * 64 + d2"
  proof cases
    case 1
    then have "a * 4096 \<le> 12 * 4096" by simp
    moreover have "d1 * 64 \<le> 63 * 64" using assms(2) by simp
    ultimately show ?thesis using assms(3) by simp
  next
    case 2
    then have "d1 * 64 \<le> 31 * 64" using assms(5) by simp
    then show ?thesis using 2 assms(3) by simp
  next
    case 3
    then have "14 * 4096 \<le> a * 4096" by simp
    then show ?thesis by simp
  qed
qed

lemma range4:
  fixes a d1 d2 d3 :: nat
  assumes "a \<le> 4" "d1 < 64" "d2 < 64" "d3 < 64" "a = 0 \<longrightarrow> 16 \<le> d1" "a = 4 \<longrightarrow> d1 < 16"
  shows "0x10000 \<le> a * 262144 + d1 * 4096 + d2 * 64 + d3"
    and "a * 262144 + d1 * 4096 + d2 * 64 + d3 < 0x110000"
proof -
  show "0x10000 \<le> a * 262144 + d1 * 4096 + d2 * 64 + d3"
  proof (cases "a = 0")
    case True
    with assms have "16 * 4096 \<le> d1 * 4096" by simp
    then show ?thesis by simp
  next
    case False
    then have "1 \<le> a" by simp
    then have "262144 \<le> a * 262144" by simp
    then show ?thesis by simp
  qed
  have d: "d2 * 64 \<le> 63 * 64" using assms(3) by simp
  show "a * 262144 + d1 * 4096 + d2 * 64 + d3 < 0x110000"
  proof (cases "a = 4")
    case True
    with assms have "d1 * 4096 \<le> 15 * 4096" by simp
    with d show ?thesis using True assms(4) by simp
  next
    case False
    with assms(1) have "a \<le> 3" by simp
    then have "a * 262144 \<le> 3 * 262144" by simp
    moreover have "d1 * 4096 \<le> 63 * 4096" using assms(2) by simp
    ultimately show ?thesis using d assms(4) by simp
  qed
qed

text \<open>Encoding what the decoder has read gives the bytes it has read.\<close>

lemma utf8_encode_decode_char:
  assumes "utf8_decode_char b0 bs = Some (c, r)"
  shows "\<exists>p. utf8_encode_char c = Some p \<and> b0 # bs = p @ r"
proof -
  define n0 where "n0 = unat b0"
  consider (one) "b0 < 0x80"
    | (two) "\<not> b0 < 0x80" "0xC2 \<le> b0 \<and> b0 \<le> 0xDF"
    | (three) "\<not> b0 < 0x80" "\<not> (0xC2 \<le> b0 \<and> b0 \<le> 0xDF)" "0xE0 \<le> b0 \<and> b0 \<le> 0xEF"
    | (four) "\<not> b0 < 0x80" "\<not> (0xC2 \<le> b0 \<and> b0 \<le> 0xDF)" "\<not> (0xE0 \<le> b0 \<and> b0 \<le> 0xEF)"
        "0xF0 \<le> b0 \<and> b0 \<le> 0xF4"
    | (bad) "\<not> b0 < 0x80" "\<not> (0xC2 \<le> b0 \<and> b0 \<le> 0xDF)" "\<not> (0xE0 \<le> b0 \<and> b0 \<le> 0xEF)"
        "\<not> (0xF0 \<le> b0 \<and> b0 \<le> 0xF4)"
    by blast
  then show ?thesis
  proof cases
    case one
    then have "c = n0" "r = bs"
      using assms by (simp_all add: utf8_decode_char_def n0_def)
    moreover have "n0 < 0x80" using one by (simp add: word_less_nat_alt n0_def)
    ultimately show ?thesis by (simp add: utf8_encode_char_def n0_def)
  next
    case two
    then obtain b1 where bs: "bs = b1 # r" and k: "is_cont b1"
      and c: "c = (unat b0 - 0xC0) * 64 + cont_bits b1"
      using assms by (auto simp: utf8_decode_char_def split: list.split_asm if_split_asm)
    define n1 where "n1 = unat b1"
    define a d where "a = n0 - 0xC0" and "d = n1 - 0x80"
    have rng: "0xC2 \<le> n0" "n0 \<le> 0xDF" "0x80 \<le> n1" "n1 \<le> 0xBF"
      using two k by (simp_all add: is_cont_def word_le_nat_alt n0_def n1_def)
    have ad: "2 \<le> a" "a \<le> 31" "d < 64" "0xC0 + a = n0" "0x80 + d = n1"
      using rng by (simp_all add: a_def d_def)
    have c': "c = a * 64 + d"
      by (simp add: c cont_bits_def n0_def n1_def a_def d_def)
    have "\<not> c < 0x80" "c < 0x800" using ad unfolding c' by simp_all
    then have "utf8_encode_char c = Some [of_nat n0, of_nat n1]"
      unfolding c' using ad by (simp add: utf8_encode_char_def sextet2)
    then show ?thesis by (simp add: bs n0_def n1_def)
  next
    case three
    then obtain b1 b2 where bs: "bs = b1 # b2 # r"
      and k1: "(if b0 = 0xE0 then 0xA0 else 0x80) \<le> b1" "b1 \<le> (if b0 = 0xED then 0x9F else 0xBF)"
      and k2: "is_cont b2"
      and c: "c = (unat b0 - 0xE0) * 4096 + cont_bits b1 * 64 + cont_bits b2"
      using assms by (auto simp: utf8_decode_char_def split: list.split_asm if_split_asm)
    define n1 n2 where "n1 = unat b1" and "n2 = unat b2"
    define a d1 d2 where "a = n0 - 0xE0" and "d1 = n1 - 0x80" and "d2 = n2 - 0x80"
    have e0: "(b0 = 0xE0) = (n0 = 0xE0)" and ed: "(b0 = 0xED) = (n0 = 0xED)"
      by (simp_all add: n0_def word_unat_eq_iff)
    have rng: "0xE0 \<le> n0" "n0 \<le> 0xEF" "(if n0 = 0xE0 then 0xA0 else 0x80) \<le> n1"
      "n1 \<le> (if n0 = 0xED then 0x9F else 0xBF)" "0x80 \<le> n2" "n2 \<le> 0xBF"
      using three k1 k2 unfolding e0 ed
      by (simp_all add: is_cont_def word_le_nat_alt n0_def n1_def n2_def split: if_split_asm)
    have ad: "a \<le> 15" "d1 < 64" "d2 < 64" "0xE0 + a = n0" "0x80 + d1 = n1" "0x80 + d2 = n2"
      "a = 0 \<longrightarrow> 32 \<le> d1" "a = 13 \<longrightarrow> d1 < 32"
      using rng by (auto simp: a_def d1_def d2_def split: if_split_asm)
    have c': "c = a * 4096 + d1 * 64 + d2"
      by (simp add: c cont_bits_def n0_def n1_def n2_def a_def d1_def d2_def)
    have "\<not> c < 0x800" "c < 0x10000" "\<not> (0xD800 \<le> c \<and> c \<le> 0xDFFF)"
      using range3 [OF ad(1,2,3,7,8)] unfolding c' by linarith+
    then have "utf8_encode_char c = Some [of_nat n0, of_nat n1, of_nat n2]"
      unfolding c' using ad by (simp add: utf8_encode_char_def sextet3)
    then show ?thesis by (simp add: bs n0_def n1_def n2_def)
  next
    case four
    then obtain b1 b2 b3 where bs: "bs = b1 # b2 # b3 # r"
      and k1: "(if b0 = 0xF0 then 0x90 else 0x80) \<le> b1" "b1 \<le> (if b0 = 0xF4 then 0x8F else 0xBF)"
      and k2: "is_cont b2" and k3: "is_cont b3"
      and c: "c = (unat b0 - 0xF0) * 262144 + cont_bits b1 * 4096 + cont_bits b2 * 64 + cont_bits b3"
      using assms by (auto simp: utf8_decode_char_def split: list.split_asm if_split_asm)
    define n1 n2 n3 where "n1 = unat b1" and "n2 = unat b2" and "n3 = unat b3"
    define a d1 d2 d3 where "a = n0 - 0xF0" and "d1 = n1 - 0x80" and "d2 = n2 - 0x80"
      and "d3 = n3 - 0x80"
    have f0: "(b0 = 0xF0) = (n0 = 0xF0)" and f4: "(b0 = 0xF4) = (n0 = 0xF4)"
      by (simp_all add: n0_def word_unat_eq_iff)
    have rng: "0xF0 \<le> n0" "n0 \<le> 0xF4" "(if n0 = 0xF0 then 0x90 else 0x80) \<le> n1"
      "n1 \<le> (if n0 = 0xF4 then 0x8F else 0xBF)" "0x80 \<le> n2" "n2 \<le> 0xBF"
      "0x80 \<le> n3" "n3 \<le> 0xBF"
      using four k1 k2 k3 unfolding f0 f4
      by (simp_all add: is_cont_def word_le_nat_alt n0_def n1_def n2_def n3_def split: if_split_asm)
    have ad: "a \<le> 4" "d1 < 64" "d2 < 64" "d3 < 64" "0xF0 + a = n0" "0x80 + d1 = n1"
      "0x80 + d2 = n2" "0x80 + d3 = n3" "a = 0 \<longrightarrow> 16 \<le> d1" "a = 4 \<longrightarrow> d1 < 16"
      using rng by (auto simp: a_def d1_def d2_def d3_def split: if_split_asm)
    have c': "c = a * 262144 + d1 * 4096 + d2 * 64 + d3"
      by (simp add: c cont_bits_def n0_def n1_def n2_def n3_def a_def d1_def d2_def d3_def)
    have "\<not> c < 0x10000" "c < 0x110000"
      using range4 [OF ad(1,2,3,4,9,10)] unfolding c' by linarith+
    then have "utf8_encode_char c = Some [of_nat n0, of_nat n1, of_nat n2, of_nat n3]"
      unfolding c' using ad by (simp add: utf8_encode_char_def sextet4)
    then show ?thesis by (simp add: bs n0_def n1_def n2_def n3_def)
  next
    case bad
    from assms show ?thesis
      unfolding utf8_decode_char_def by (simp only: bad if_False option.distinct)
  qed
qed

lemma utf8_encode_decode: "utf8_decode bs = Some cs \<Longrightarrow> utf8_encode cs = Some bs"
proof (induction bs arbitrary: cs rule: utf8_decode.induct)
  case 1
  then show ?case by simp
next
  case (2 b0 bs)
  from "2.prems" obtain c r cs' where d: "utf8_decode_char b0 bs = Some (c, r)"
    and r: "utf8_decode r = Some cs'" and cs: "cs = c # cs'"
    by (auto split: option.split_asm)
  from utf8_encode_decode_char [OF d] obtain p where p: "utf8_encode_char c = Some p" "b0 # bs = p @ r"
    by blast
  from "2.IH" [OF _ _ r] d have "utf8_encode cs' = Some r" by simp
  with p show ?case by (simp add: cs)
qed

text \<open>
  C5. For every attribute mapping whose values are all valid UTF-8, encoding the
  mapping to the wire and decoding the result gives the mapping back.
\<close>

theorem attribute_codec_roundtrip:
  assumes "\<forall>(k, v) \<in> set A. valid_utf8 v"
  shows "\<exists>W. encode_attributes A = Inr W \<and> decode_attributes W = Inr A"
  using assms
proof (induction A)
  case Nil
  then show ?case by (simp add: encode_attributes_def decode_attributes_def)
next
  case (Cons kv A)
  obtain k v where kv: "kv = (k, v)" by (cases kv)
  from Cons.prems kv have "valid_utf8 v" by simp
  then obtain b s where v: "v = Bytes b" and d: "utf8_decode b = Some s"
    by (cases v) auto
  from utf8_encode_decode [OF d] have e: "utf8_encode s = Some b" .
  from Cons obtain W where W: "encode_attributes A = Inr W" "decode_attributes W = Inr A"
    by auto
  have "encode_attributes (kv # A) = Inr ((k, Str s) # W)"
    using W(1) d by (simp add: kv v encode_attributes_def encode_value_def bytes_decode_def)
  moreover have "decode_attributes ((k, Str s) # W) = Inr (kv # A)"
    using W(2) e by (simp add: kv v decode_attributes_def decode_value_def str_encode_def)
  ultimately show ?case by blast
qed

theorem attribute_codec_roundtrip_witness:
  "valid_utf8 (Bytes [0x76, 0x31]) \<and> valid_utf8 (Bytes [0xE2, 0x82, 0xAC])
   \<and> (\<exists>W. encode_attributes [(''k1'', Bytes [0x76, 0x31]), (''k2'', Bytes [0xE2, 0x82, 0xAC])] = Inr W
          \<and> decode_attributes W
              = Inr [(''k1'', Bytes [0x76, 0x31]), (''k2'', Bytes [0xE2, 0x82, 0xAC])])"
proof -
  have v1: "valid_utf8 (Bytes [0x76, 0x31])"
    by (simp add: utf8_decode_char_def)
  have v2: "valid_utf8 (Bytes [0xE2, 0x82, 0xAC])"
    by (simp add: utf8_decode_char_def is_cont_def)
  from v1 v2
    attribute_codec_roundtrip
      [of "[(''k1'', Bytes [0x76, 0x31]), (''k2'', Bytes [0xE2, 0x82, 0xAC])]"]
  show ?thesis by simp
qed

text \<open>
  A text value passes \<^verbatim>\<open>_encode_attributes\<close> unchanged and leaves
  \<^verbatim>\<open>_decode_attributes\<close> as the bytes of its encoding.
\<close>

lemma text_value_comes_back_as_bytes:
  "encode_attributes [(''k'', Str [0x61])] = Inr [(''k'', Str [0x61])]"
  "decode_attributes [(''k'', Str [0x61])] = Inr [(''k'', Bytes [0x61])]"
  by (simp_all add: encode_attributes_def decode_attributes_def encode_value_def decode_value_def
      str_encode_def utf8_encode_char_def)

section \<open>Properties of the matcher\<close>

lemma dict_comp_keys: "dict_comp f a = Inr r \<Longrightarrow> map fst r = map fst a"
proof (induction a arbitrary: r)
  case Nil
  then show ?case by simp
next
  case (Cons kv a)
  obtain k v where kv: "kv = (k, v)" by (cases kv)
  from Cons.prems obtain v' r' where "f v = Inr v'" "dict_comp f a = Inr r'" "r = (k, v') # r'"
    by (auto simp: kv split: sum.split_asm)
  with Cons.IH show ?case by (simp add: kv)
qed

lemma encode_attributes_keys:
  "encode_attributes a = Inr encoded \<Longrightarrow> map fst encoded = map fst a"
  unfolding encode_attributes_def by (rule dict_comp_keys)

lemma matches_attributes_iff:
  assumes "distinct (map fst encoded)"
  shows "list_all (\<lambda>(k, v). map_of (item_attributes it) k = Some v) encoded
           = attrsMatch encoded it"
proof -
  have "(\<forall>(k, v) \<in> set encoded. map_of (item_attributes it) k = Some v)
          = (\<forall>k \<in> set (map fst encoded). map_of (item_attributes it) k = map_of encoded k)"
  proof (intro iffI ballI)
    fix k
    assume h: "\<forall>(k, v) \<in> set encoded. map_of (item_attributes it) k = Some v"
      and k: "k \<in> set (map fst encoded)"
    from k obtain v where kv: "(k, v) \<in> set encoded" by auto
    with assms have "map_of encoded k = Some v" by simp
    moreover from h kv have "map_of (item_attributes it) k = Some v" by auto
    ultimately show "map_of (item_attributes it) k = map_of encoded k" by simp
  next
    fix kv
    assume h: "\<forall>k \<in> set (map fst encoded). map_of (item_attributes it) k = map_of encoded k"
      and kv: "kv \<in> set encoded"
    obtain k v where e: "kv = (k, v)" by (cases kv)
    from kv e assms have "map_of encoded k = Some v" by simp
    moreover from kv e have "k \<in> set (map fst encoded)" by force
    moreover from h this have "map_of (item_attributes it) k = map_of encoded k"
      by (rule bspec)
    ultimately show "case kv of (k, v) \<Rightarrow> map_of (item_attributes it) k = Some v"
      using e by simp
  qed
  then show ?thesis by (simp add: list_all_iff attrsMatch_def)
qed

lemma matches_label_iff: "(label = None \<or> label = Some (item_label it)) = labelMatch label it"
  by (cases label) (auto simp: labelMatch_def)

lemma matches_path_iff: "(path = None \<or> path = Some (item_path it)) = pathMatch path it"
  by (cases path) (auto simp: pathMatch_def)

lemma search_loop_filter:
  assumes "distinct (map fst encoded)"
  shows "search_loop encoded label path (logic_name lg) items matched_items
           = matched_items @ filter (spec_matches lg encoded label path) items"
proof (induction items arbitrary: matched_items)
  case Nil
  then show ?case by simp
next
  case (Cons item items)
  have "\<And>m. search_loop encoded label path (logic_name lg) items m
          = m @ filter (spec_matches lg encoded label path) items"
    by (rule Cons.IH)
  moreover have "spec_matches ALL_OF encoded label path
      = (\<lambda>a. attrsMatch encoded a \<and> labelMatch label a \<and> pathMatch path a)"
    and "spec_matches ANY_OF encoded label path
      = (\<lambda>a. attrsMatch encoded a \<or> labelMatch label a \<or> pathMatch path a)"
    by (rule ext, simp)+
  ultimately show ?case
    by (cases lg)
      (simp_all add: matches_attributes_iff [OF assms] matches_label_iff
        matches_path_iff Let_def)
qed

text \<open>
  C1. With logic ALL (\<^verbatim>\<open>'AND'\<close>) or ANY (\<^verbatim>\<open>'OR'\<close>), \<^verbatim>\<open>search_items\<close> returns exactly
  the items of the collection, in enumeration order, for which the combinator holds
  over attrsMatch, labelMatch and pathMatch, where attrsMatch is taken on the encoded
  predicate attributes.
\<close>

theorem search_items_matches_spec:
  assumes "distinct (map fst (case attributes of None \<Rightarrow> [] | Some a \<Rightarrow> a))"
    and "encode_attributes (case attributes of None \<Rightarrow> [] | Some a \<Rightarrow> a) = Inr encoded"
  shows "search_items attributes label path (logic_name lg) c
           = Inr (filter (spec_matches lg encoded label path) (coll_items c))"
proof -
  from assms have "distinct (map fst encoded)"
    by (simp add: encode_attributes_keys)
  then show ?thesis
    using assms(2) by (simp add: search_items_def get_all_items_def search_loop_filter)
qed

theorem search_items_matches_spec_witness:
  "search_items (Some [(''k1'', Bytes [0x76, 0x31])]) (Some ''mail'') None ''AND'' demo
     = Inr [item1, item2]
   \<and> search_items (Some [(''k2'', Bytes [0x76, 0x32])]) (Some ''mail'') None ''OR'' demo
     = Inr [item1, item2, item3]
   \<and> search_items (Some [(''k2'', Bytes [0x76, 0x32])]) None (Some ''/c/1'') ''AND'' demo
     = Inr []"
proof -
  have e1: "encode_attributes (case Some [(''k1'', Bytes [0x76, 0x31])] of None \<Rightarrow> [] | Some a \<Rightarrow> a)
              = Inr [(''k1'', Str [0x76, 0x31])]"
    by (simp add: codec_defs)
  have e2: "encode_attributes (case Some [(''k2'', Bytes [0x76, 0x32])] of None \<Rightarrow> [] | Some a \<Rightarrow> a)
              = Inr [(''k2'', Str [0x76, 0x32])]"
    by (simp add: codec_defs)
  have d1: "distinct (map fst (case Some [(''k1'', Bytes [0x76, 0x31])] of None \<Rightarrow> [] | Some a \<Rightarrow> a))"
    and d2: "distinct (map fst (case Some [(''k2'', Bytes [0x76, 0x32])] of None \<Rightarrow> [] | Some a \<Rightarrow> a))"
    by simp_all
  show ?thesis
    using search_items_matches_spec [OF d1 e1, of "Some ''mail''" None ALL_OF demo]
      search_items_matches_spec [OF d2 e2, of "Some ''mail''" None ANY_OF demo]
      search_items_matches_spec [OF d2 e2, of None "Some ''/c/1''" ALL_OF demo]
    by (simp add: demo_defs attrsMatch_def labelMatch_def pathMatch_def)
qed

text \<open>
  C6. With an entirely empty predicate (no attribute filter, given as \<^verbatim>\<open>None\<close> or as
  the empty dict, no label, no path) \<^verbatim>\<open>search_items\<close> returns every item of the
  collection, under ANY and under ALL.
\<close>

theorem search_items_empty_predicate:
  "search_items None None None (logic_name lg) c = Inr (coll_items c)
   \<and> search_items (Some []) None None (logic_name lg) c = Inr (coll_items c)"
proof -
  have "filter (spec_matches lg [] None None) (coll_items c) = coll_items c"
    by (cases lg) (simp_all add: attrsMatch_def labelMatch_def pathMatch_def)
  then show ?thesis
    by (simp add: search_items_def get_all_items_def encode_attributes_def
        search_loop_filter [of "[]", simplified])
qed

theorem search_items_empty_predicate_witness:
  "search_items None None None ''OR'' demo = Inr [item1, item2, item3]
   \<and> search_items None None None ''AND'' demo = Inr [item1, item2, item3]
   \<and> search_items (Some []) None None ''OR'' demo = Inr [item1, item2, item3]
   \<and> search_items (Some []) None None ''AND'' demo = Inr [item1, item2, item3]"
  using search_items_empty_predicate [of ANY_OF demo]
    search_items_empty_predicate [of ALL_OF demo]
  by (simp add: demo_def)

section \<open>Unlocking\<close>

text \<open>
  C9. \<^verbatim>\<open>_unlock\<close> on an unlocked collection changes nothing and sends no unlock
  request. On a locked collection it sends exactly one request, whatever the prompt's
  outcome, reports a dismissed prompt on standard error, and raises the ``still locked''
  error exactly when the collection is locked after the request.
\<close>

theorem unlock_behaviour:
  "(\<not> coll_locked c \<longrightarrow> unlock collection_name answer c = (Inr (), c, []))
   \<and> (coll_locked c \<longrightarrow>
        (case unlock collection_name answer c of
           (r, c', err) \<Rightarrow>
             coll_unlock_requests c' = Suc (coll_unlock_requests c)
             \<and> coll_items c' = coll_items c
             \<and> (r = Inl (ValueError (still_locked_message collection_name))) = coll_locked c'
             \<and> (r = Inr ()) = (\<not> coll_locked c')
             \<and> (''Unlock prompt was dismissed by user.'' \<in> set err) = ans_dismissed answer))"
  by (simp add: unlock_def service_unlock_def Let_def)

theorem unlock_behaviour_witness:
  "unlock ''Login'' \<lparr>ans_dismissed = True, ans_locked = True\<rparr> demo = (Inr (), demo, [])
   \<and> unlock ''Login'' \<lparr>ans_dismissed = True, ans_locked = True\<rparr> (demo\<lparr>coll_locked := True\<rparr>)
       = (Inl (ValueError (still_locked_message ''Login'')),
          demo\<lparr>coll_locked := True, coll_unlock_requests := 1\<rparr>,
          [''Collection is locked. The Secret Service controls the prompt.'',
           ''Unlocking will continue via service provided GUI.'',
           ''Unlock prompt was dismissed by user.''])
   \<and> unlock ''Login'' \<lparr>ans_dismissed = False, ans_locked = False\<rparr> (demo\<lparr>coll_locked := True\<rparr>)
       = (Inr (),
          demo\<lparr>coll_locked := False, coll_unlock_requests := 1\<rparr>,
          [''Collection is locked. The Secret Service controls the prompt.'',
           ''Unlocking will continue via service provided GUI.''])"
  using unlock_behaviour [of demo "''Login''" "\<lparr>ans_dismissed = True, ans_locked = True\<rparr>"]
    unlock_behaviour [of "demo\<lparr>coll_locked := True\<rparr>" "''Login''"
      "\<lparr>ans_dismissed = True, ans_locked = True\<rparr>"]
    unlock_behaviour [of "demo\<lparr>coll_locked := True\<rparr>" "''Login''"
      "\<lparr>ans_dismissed = False, ans_locked = False\<rparr>"]
  by (simp add: unlock_def service_unlock_def demo_def Let_def)

section \<open>Properties of the service model\<close>

lemma find_path_map:
  assumes "\<And>x. item_path (f x) = item_path x"
  shows "find (\<lambda>x. item_path x = p) (map f xs) = map_option f (find (\<lambda>x. item_path x = p) xs)"
  by (induction xs) (simp_all add: assms)

lemma find_path_member:
  assumes "it \<in> set xs" "distinct (map item_path xs)"
  shows "find (\<lambda>x. item_path x = item_path it) xs = Some it"
  using assms by (induction xs) (auto simp: image_iff)

lemma find_item_set_secret:
  "find_item (item_set_secret p s c) q
     = map_option (\<lambda>x. if item_path x = p then x\<lparr>item_secret := s\<rparr> else x) (find_item c q)"
  unfolding find_item_def item_set_secret_def by (simp add: find_path_map)

lemma find_item_set_attributes:
  "find_item (item_set_attributes p a c) q
     = map_option (\<lambda>x. if item_path x = p then x\<lparr>item_attributes := a\<rparr> else x) (find_item c q)"
  unfolding find_item_def item_set_attributes_def by (simp add: find_path_map)

lemma find_item_delete: "find_item (item_delete p c) p = None"
  unfolding find_item_def item_delete_def by (simp add: find_None_iff)

lemma find_item_member:
  "it \<in> set (coll_items c) \<Longrightarrow> distinct (map item_path (coll_items c))
     \<Longrightarrow> find_item c (item_path it) = Some it"
  unfolding find_item_def by (rule find_path_member)

lemma others_map:
  assumes "\<And>x. item_path (g x) = item_path x"
  shows "filter (\<lambda>x. item_path x \<noteq> p) (map (\<lambda>x. if item_path x = p then g x else x) xs)
           = filter (\<lambda>x. item_path x \<noteq> p) xs"
  by (induction xs) (simp_all add: assms)

lemma others_set_secret:
  "filter (\<lambda>x. item_path x \<noteq> p) (coll_items (item_set_secret p s c))
     = filter (\<lambda>x. item_path x \<noteq> p) (coll_items c)"
  unfolding item_set_secret_def by (simp add: others_map)

lemma others_set_attributes:
  "filter (\<lambda>x. item_path x \<noteq> p) (coll_items (item_set_attributes p a c))
     = filter (\<lambda>x. item_path x \<noteq> p) (coll_items c)"
  unfolding item_set_attributes_def by (simp add: others_map)

lemma others_delete:
  "filter (\<lambda>x. item_path x \<noteq> p) (coll_items (item_delete p c))
     = filter (\<lambda>x. item_path x \<noteq> p) (coll_items c)"
  unfolding item_delete_def by simp

lemma others_distinct:
  assumes "it \<in> set xs" "distinct (map item_path xs)"
  shows "filter (\<lambda>x. item_path x \<noteq> item_path it) xs = filter (\<lambda>x. x \<noteq> it) xs"
proof (rule filter_cong [OF refl])
  fix x
  assume "x \<in> set xs"
  with assms have "item_path x = item_path it \<longleftrightarrow> x = it"
    by (auto simp: distinct_map inj_on_def)
  then show "(item_path x \<noteq> item_path it) = (x \<noteq> it)" by simp
qed

lemma search_loop_Cons:
  "\<exists>b. \<forall>matched_items.
     search_loop encoded label path logic (item # items) matched_items
       = search_loop encoded label path logic items
           (if b then matched_items @ [item] else matched_items)"
proof -
  define ma where
    "ma = list_all (\<lambda>(k, v). map_of (item_attributes item) k = Some v) encoded"
  define ml where "ml = (label = None \<or> label = Some (item_label item))"
  define mp where "mp = (path = None \<or> path = Some (item_path item))"
  have "\<forall>matched_items.
     search_loop encoded label path logic (item # items) matched_items
       = search_loop encoded label path logic items
           (if (logic = ''AND'' \<and> ma \<and> ml \<and> mp) \<or> (logic = ''OR'' \<and> (ma \<or> ml \<or> mp))
            then matched_items @ [item] else matched_items)"
    unfolding search_loop.simps Let_def ma_def [symmetric] ml_def [symmetric] mp_def [symmetric]
    by simp
  then show ?thesis ..
qed

lemma search_loop_append:
  "search_loop encoded label path logic items matched_items
     = matched_items @ search_loop encoded label path logic items []"
proof (induction items arbitrary: matched_items)
  case Nil
  then show ?case by simp
next
  case (Cons item items)
  obtain b where b: "\<And>m. search_loop encoded label path logic (item # items) m
      = search_loop encoded label path logic items (if b then m @ [item] else m)"
    using search_loop_Cons [of encoded label path logic item items] by blast
  show ?case
  proof (cases b)
    case True
    have "search_loop encoded label path logic (item # items) matched_items
            = (matched_items @ [item]) @ search_loop encoded label path logic items []"
      unfolding b using True Cons.IH [of "matched_items @ [item]"] by simp
    also have "\<dots> = matched_items @ search_loop encoded label path logic (item # items) []"
      unfolding b using True Cons.IH [of "[item]"] by simp
    finally show ?thesis .
  next
    case False
    then show ?thesis unfolding b using Cons.IH [of matched_items] by simp
  qed
qed

lemma search_loop_subset:
  "set (search_loop encoded label path logic items []) \<subseteq> set items"
proof (induction items)
  case Nil
  then show ?case by simp
next
  case (Cons item items)
  obtain b where b: "\<And>m. search_loop encoded label path logic (item # items) m
      = search_loop encoded label path logic items (if b then m @ [item] else m)"
    using search_loop_Cons [of encoded label path logic item items] by blast
  show ?case
  proof (cases b)
    case True
    then have "search_loop encoded label path logic (item # items) []
                 = item # search_loop encoded label path logic items []"
      unfolding b using search_loop_append [of encoded label path logic items "[item]"]
      by simp
    with Cons.IH show ?thesis by auto
  next
    case False
    then have "search_loop encoded label path logic (item # items) []
                 = search_loop encoded label path logic items []"
      unfolding b by simp
    with Cons.IH show ?thesis by auto
  qed
qed

lemma search_items_member:
  assumes "search_items attributes label path logic c = Inr (it # rest)"
  shows "it \<in> set (coll_items c)"
proof -
  from assms obtain encoded where
    "search_loop encoded label path logic (coll_items c) [] = it # rest"
    by (auto simp: search_items_def get_all_items_def split: sum.split_asm)
  with search_loop_subset [of encoded label path logic "coll_items c"]
  show ?thesis by auto
qed

lemma map_of_dict_merge:
  "distinct (map fst new) \<Longrightarrow> map_of (dict_merge current new) = map_of current ++ map_of new"
proof (induction new arbitrary: current)
  case Nil
  then show ?case by (simp add: dict_merge_def)
next
  case (Cons kv new)
  obtain k v where kv: "kv = (k, v)" by (cases kv)
  from Cons.prems kv have k: "k \<notin> fst ` set new" and d: "distinct (map fst new)"
    by simp_all
  have "map_of (dict_merge current (kv # new)) = map_of (dict_merge (AList.update k v current) new)"
    by (simp add: dict_merge_def kv)
  also have "\<dots> = (map_of current)(k \<mapsto> v) ++ map_of new"
    by (simp only: Cons.IH [OF d] update_conv')
  also have "\<dots> = map_of current ++ map_of (kv # new)"
  proof (rule ext)
    fix x
    from k have "map_of new k = None" by (simp add: map_of_eq_None_iff)
    then show "((map_of current)(k \<mapsto> v) ++ map_of new) x = (map_of current ++ map_of (kv # new)) x"
      by (cases "x = k") (simp_all add: kv map_add_def split: option.split)
  qed
  finally show ?case .
qed

lemma map_of_delete_loop:
  "map_of (delete_loop ks current) = map_of current |` (- set ks)"
proof (induction ks arbitrary: current)
  case Nil
  then show ?case by simp
next
  case (Cons k ks)
  have "map_of (delete_loop (k # ks) current) = (map_of current)(k := None) |` (- set ks)"
  proof (cases "k \<in> set (map fst current)")
    case True
    then have "delete_loop (k # ks) current = delete_loop ks (AList.delete k current)"
      by simp
    then show ?thesis by (simp only: Cons.IH delete_conv')
  next
    case False
    then have "map_of current k = None" by (simp add: map_of_eq_None_iff)
    then have "(map_of current)(k := None) = map_of current" by (simp add: fun_eq_iff)
    with False show ?thesis by (simp add: Cons.IH)
  qed
  also have "\<dots> = map_of current |` (- set (k # ks))"
    by (rule ext) (simp add: restrict_map_def)
  finally show ?case .
qed

text \<open>Merging and deleting keep the keys of a dict distinct.\<close>

lemma distinct_dict_merge:
  "distinct (map fst current) \<Longrightarrow> distinct (map fst (dict_merge current new))"
  unfolding dict_merge_def
  by (induction new arbitrary: current) (auto simp: distinct_update)

lemma distinct_delete_loop:
  "distinct (map fst current) \<Longrightarrow> distinct (map fst (delete_loop ks current))"
  by (induction ks arbitrary: current) (auto simp: distinct_delete)

section \<open>Updating an item\<close>

text \<open>
  What \<^verbatim>\<open>update_item\<close> does to the first match \<open>it\<close>: the collection after the
  truth test on \<open>new_secret\<close>.
\<close>

lemma update_item_first:
  assumes "search_items attributes label path logic c = Inr (it # rest)"
    and "distinct (map item_path (coll_items c))"
  shows "find_item c (item_path it) = Some it"
  using assms by (simp add: find_item_member search_items_member)

lemma find_item_path: "find_item c p = Some x \<Longrightarrow> item_path x = p"
  unfolding find_item_def by (auto simp: find_Some_iff)

text \<open>
  C2. For the first match and a non-empty \<open>new_attributes\<close> that encodes to
  \<open>encoded\<close>: with \<open>merge\<close> the item's attributes become the union of its current
  attributes and \<open>encoded\<close>, the new values winning on a shared key; without \<open>merge\<close>
  they become \<open>encoded\<close> itself, so every other key is gone.
\<close>

theorem update_item_attributes:
  assumes "search_items attributes label path logic c = Inr (it # rest)"
    and "distinct (map item_path (coll_items c))"
    and "new_attributes \<noteq> []"
    and "distinct (map fst new_attributes)"
    and "encode_attributes new_attributes = Inr encoded"
  shows "(case update_item attributes new_secret (Some new_attributes) label path logic True c of
            (r, c') \<Rightarrow>
              r = Inr ()
              \<and> (\<exists>it'. find_item c' (item_path it) = Some it'
                    \<and> map_of (item_attributes it')
                        = map_of (item_attributes it) ++ map_of encoded))
         \<and> (case update_item attributes new_secret (Some new_attributes) label path logic False c of
              (r, c') \<Rightarrow>
                r = Inr ()
                \<and> (\<exists>it'. find_item c' (item_path it) = Some it'
                      \<and> item_attributes it' = encoded
                      \<and> dom (map_of (item_attributes it')) = set (map fst new_attributes)))"
proof -
  define c1 where
    "c1 = (case new_secret of None \<Rightarrow> c
           | Some s \<Rightarrow> if s \<noteq> [] then item_set_secret (item_path it) s c else c)"
  have f: "find_item c (item_path it) = Some it"
    using assms(1,2) by (rule update_item_first)
  have "\<exists>x. find_item c1 (item_path it) = Some x \<and> item_attributes x = item_attributes it"
    unfolding c1_def using f by (simp add: find_item_set_secret split: option.split)
  then obtain x where x: "find_item c1 (item_path it) = Some x"
    "item_attributes x = item_attributes it" by blast
  have xp: "item_path x = item_path it"
    using x(1) by (rule find_item_path)
  have g: "item_get_attributes c1 (item_path it) = Inr (item_attributes it)"
    by (simp add: item_get_attributes_def x)
  have keys: "map fst encoded = map fst new_attributes"
    using assms(5) by (rule encode_attributes_keys)
  have d: "distinct (map fst encoded)" using assms(4) keys by simp
  have m: "update_item attributes new_secret (Some new_attributes) label path logic True c
             = (Inr (), item_set_attributes (item_path it)
                  (dict_merge (item_attributes it) encoded) c1)"
    using assms(1,3,5) g by (simp add: update_item_def c1_def [symmetric])
  have r: "update_item attributes new_secret (Some new_attributes) label path logic False c
             = (Inr (), item_set_attributes (item_path it) encoded c1)"
    using assms(1,3,5) by (simp add: update_item_def c1_def [symmetric])
  have "dom (map_of encoded) = set (map fst new_attributes)"
    by (simp add: dom_map_of_conv_image_fst keys [symmetric])
  then show ?thesis
    unfolding m r by (simp add: find_item_set_attributes x xp map_of_dict_merge [OF d])
qed


lemma demo_paths: "distinct (map item_path (coll_items demo))"
  by (simp add: demo_defs)

lemma demo_search_path1: "search_items None None (Some ''/c/1'') ''AND'' demo = Inr [item1]"
  by (simp add: search_items_def get_all_items_def encode_attributes_def demo_defs)

lemma demo_search_mail: "search_items None (Some ''mail'') None ''AND'' demo = Inr [item1, item2]"
  by (simp add: search_items_def get_all_items_def encode_attributes_def demo_defs)

lemma demo_search_none: "search_items None (Some ''ftp'') None ''AND'' demo = Inr []"
  by (simp add: search_items_def get_all_items_def encode_attributes_def demo_defs)

lemma encode_k2: "encode_attributes [(''k2'', Bytes [0x76, 0x32])] = Inr [(''k2'', Str [0x76, 0x32])]"
  by (simp add: codec_defs)

lemma encode_k1: "encode_attributes [(''k1'', Bytes [0x76, 0x31])] = Inr [(''k1'', Str [0x76, 0x31])]"
  by (simp add: codec_defs)

theorem update_item_attributes_witness:
  "search_items None None (Some ''/c/1'') ''AND'' demo = Inr [item1]
   \<and> distinct (map item_path (coll_items demo))
   \<and> encode_attributes [(''k2'', Bytes [0x76, 0x32])] = Inr [(''k2'', Str [0x76, 0x32])]
   \<and> update_item None None (Some [(''k2'', Bytes [0x76, 0x32])]) None (Some ''/c/1'') ''AND'' True demo
     = (Inr (),
        demo\<lparr>coll_items :=
          [item1\<lparr>item_attributes := [(''k1'', Str [0x76, 0x31]), (''k2'', Str [0x76, 0x32])]\<rparr>,
           item2, item3]\<rparr>)
   \<and> update_item None None (Some [(''k2'', Bytes [0x76, 0x32])]) None (Some ''/c/1'') ''AND'' False demo
     = (Inr (),
        demo\<lparr>coll_items :=
          [item1\<lparr>item_attributes := [(''k2'', Str [0x76, 0x32])]\<rparr>, item2, item3]\<rparr>)"
proof -
  have n: "[(''k2'', Bytes [0x76, 0x32])] \<noteq> []"
    and k: "distinct (map fst [(''k2'', Bytes [0x76, 0x32])])"
    by simp_all
  from update_item_attributes [OF demo_search_path1 demo_paths n k encode_k2, of None]
  show ?thesis
    unfolding update_item_def demo_search_path1
    by (simp add: encode_k2 item_get_attributes_def find_item_def item_set_attributes_def
        dict_merge_def demo_defs)
qed

text \<open>
  C7, as stated, fails for the empty string: \<^verbatim>\<open>if new_secret:\<close> is false for it, and
  the secret of the first match stays what it was.
\<close>

theorem update_item_empty_secret_counterexample:
  "search_items None None (Some ''/c/1'') ''AND'' demo = Inr [item1]
   \<and> update_item None (Some []) None None (Some ''/c/1'') ''AND'' True demo = (Inr (), demo)
   \<and> find_item demo ''/c/1'' = Some item1
   \<and> item_secret item1 = ''s1''"
  unfolding update_item_def demo_search_path1 by (simp add: find_item_def demo_defs)

text \<open>
  C7, amended. For the first match and a provided non-empty \<open>new_secret\<close>,
  \<^verbatim>\<open>update_item\<close> overwrites the item's secret with it, whatever the other arguments
  are and also when the attribute update that follows raises.
\<close>

theorem update_item_secret:
  assumes "search_items attributes label path logic c = Inr (it # rest)"
    and "distinct (map item_path (coll_items c))"
    and "new_secret \<noteq> []"
  shows "\<exists>it'. find_item (snd (update_item attributes (Some new_secret) new_attributes
                                   label path logic merge c)) (item_path it) = Some it'
               \<and> item_secret it' = new_secret"
proof -
  define c1 where "c1 = item_set_secret (item_path it) new_secret c"
  have f: "find_item c (item_path it) = Some it"
    using assms(1,2) by (rule update_item_first)
  have x: "find_item c1 (item_path it) = Some (it\<lparr>item_secret := new_secret\<rparr>)"
    unfolding c1_def using f by (simp add: find_item_set_secret)
  have g: "item_get_attributes c1 (item_path it) = Inr (item_attributes it)"
    by (simp add: item_get_attributes_def x)
  consider (none) "new_attributes = None \<or> new_attributes = Some []"
    | (bad) na e where "new_attributes = Some na" "na \<noteq> []" "encode_attributes na = Inl e"
    | (good) na encoded where "new_attributes = Some na" "na \<noteq> []"
        "encode_attributes na = Inr encoded"
    by (cases new_attributes; cases "encode_attributes (the new_attributes)") auto
  then show ?thesis
  proof cases
    case none
    then have "snd (update_item attributes (Some new_secret) new_attributes label path logic merge c)
                 = c1"
      using assms(1,3) by (auto simp: update_item_def c1_def)
    with x show ?thesis by simp
  next
    case bad
    then have "snd (update_item attributes (Some new_secret) new_attributes label path logic merge c)
                 = c1"
      using assms(1,3) by (simp add: update_item_def c1_def)
    with x show ?thesis by simp
  next
    case good
    then have "snd (update_item attributes (Some new_secret) new_attributes label path logic merge c)
                 = item_set_attributes (item_path it)
                     (if merge then dict_merge (item_attributes it) encoded else encoded) c1"
      using assms(1,3) g by (simp add: update_item_def c1_def [symmetric])
    with x show ?thesis by (simp add: find_item_set_attributes)
  qed
qed

theorem update_item_secret_witness:
  "search_items None None (Some ''/c/1'') ''AND'' demo = Inr [item1]
   \<and> distinct (map item_path (coll_items demo))
   \<and> update_item None (Some ''new'') None None (Some ''/c/1'') ''AND'' True demo
     = (Inr (), demo\<lparr>coll_items := [item1\<lparr>item_secret := ''new''\<rparr>, item2, item3]\<rparr>)
   \<and> update_item None (Some ''new'') (Some [(''k'', Bytes [0xFF])]) None (Some ''/c/1'') ''AND'' True demo
     = (Inl UnicodeDecodeError,
        demo\<lparr>coll_items := [item1\<lparr>item_secret := ''new''\<rparr>, item2, item3]\<rparr>)"
proof -
  have n: "''new'' \<noteq> []" by simp
  have e: "encode_attributes [(''k'', Bytes [0xFF])] = Inl UnicodeDecodeError"
    by (simp add: codec_defs)
  from update_item_secret [OF demo_search_path1 demo_paths n, of None True]
    update_item_secret [OF demo_search_path1 demo_paths n, of "Some [(''k'', Bytes [0xFF])]" True]
  show ?thesis
    unfolding update_item_def demo_search_path1
    by (simp add: e item_set_secret_def demo_defs)
qed


section \<open>Deleting an item or some of its attributes\<close>

text \<open>
  C10. For a predicate with at least one match, \<^verbatim>\<open>delete_item\<close> with a
  \<open>delete_attributes\<close> that is given but empty deletes the whole first match, exactly
  as when \<open>delete_attributes\<close> is not given: no item is left at its path.
\<close>

theorem delete_item_empty_mapping:
  assumes "search_items attributes label path logic c = Inr (it # rest)"
  shows "delete_item attributes label path logic (Some []) c
           = delete_item attributes label path logic None c
         \<and> delete_item attributes label path logic (Some []) c
           = (Inr (), item_delete (item_path it) c)
         \<and> find_item (item_delete (item_path it) c) (item_path it) = None
         \<and> it \<notin> set (coll_items (item_delete (item_path it) c))"
  using assms by (auto simp: delete_item_def find_item_delete) (simp add: item_delete_def)

theorem delete_item_empty_mapping_witness:
  "search_items None None (Some ''/c/1'') ''AND'' demo = Inr [item1]
   \<and> delete_item None None (Some ''/c/1'') ''AND'' (Some []) demo
     = (Inr (), demo\<lparr>coll_items := [item2, item3]\<rparr>)
   \<and> delete_item None None (Some ''/c/1'') ''AND'' None demo
     = (Inr (), demo\<lparr>coll_items := [item2, item3]\<rparr>)"
  using delete_item_empty_mapping [OF demo_search_path1]
  unfolding delete_item_def demo_search_path1
  by (simp add: item_delete_def demo_defs)

text \<open>
  C3, as stated, fails for a mapping that is given but empty: the item does not
  survive.
\<close>

theorem delete_item_given_mapping_counterexample:
  "search_items None None (Some ''/c/1'') ''AND'' demo = Inr [item1]
   \<and> find_item demo ''/c/1'' = Some item1
   \<and> find_item (snd (delete_item None None (Some ''/c/1'') ''AND'' (Some []) demo)) ''/c/1''
       = None"
  unfolding delete_item_def demo_search_path1
  by (simp add: item_delete_def find_item_def demo_defs)

text \<open>
  C3, amended. For a predicate with at least one match: when \<open>delete_attributes\<close> is
  given, not empty and encodes, \<^verbatim>\<open>delete_item\<close> removes exactly its keys from the
  attributes of the first match (a key the item does not have is ignored), stores
  the reduced set, and the item stays in the collection with its label and secret;
  when \<open>delete_attributes\<close> is not given, the first match is removed from the
  collection.
\<close>

theorem delete_item_attributes:
  assumes "search_items attributes label path logic c = Inr (it # rest)"
    and "distinct (map item_path (coll_items c))"
    and "delete_attributes \<noteq> []"
    and "encode_attributes delete_attributes = Inr encoded"
  shows "(case delete_item attributes label path logic (Some delete_attributes) c of
            (r, c') \<Rightarrow>
              r = Inr ()
              \<and> (\<exists>it'. find_item c' (item_path it) = Some it'
                    \<and> map_of (item_attributes it')
                        = map_of (item_attributes it) |` (- set (map fst delete_attributes))
                    \<and> item_label it' = item_label it
                    \<and> item_secret it' = item_secret it)
              \<and> map item_path (coll_items c') = map item_path (coll_items c))
         \<and> (case delete_item attributes label path logic None c of
              (r, c') \<Rightarrow>
                r = Inr ()
                \<and> find_item c' (item_path it) = None
                \<and> coll_items c' = filter (\<lambda>x. x \<noteq> it) (coll_items c))"
proof -
  have mem: "it \<in> set (coll_items c)"
    using assms(1) by (rule search_items_member)
  have f: "find_item c (item_path it) = Some it"
    using assms(1,2) by (rule update_item_first)
  have g: "item_get_attributes c (item_path it) = Inr (item_attributes it)"
    by (simp add: item_get_attributes_def f)
  have keys: "map fst encoded = map fst delete_attributes"
    using assms(4) by (rule encode_attributes_keys)
  have a: "delete_item attributes label path logic (Some delete_attributes) c
             = (Inr (), item_set_attributes (item_path it)
                  (delete_loop (map fst delete_attributes) (item_attributes it)) c)"
    using assms(1,3,4) g by (simp add: delete_item_def keys)
  have w: "delete_item attributes label path logic None c
             = (Inr (), item_delete (item_path it) c)"
    using assms(1) by (simp add: delete_item_def)
  have p: "map item_path (coll_items (item_set_attributes (item_path it) a' c))
             = map item_path (coll_items c)" for a'
    by (simp add: item_set_attributes_def comp_def cong: map_cong)
  have q: "coll_items (item_delete (item_path it) c) = filter (\<lambda>x. x \<noteq> it) (coll_items c)"
    using others_distinct [OF mem assms(2)] by (simp add: item_delete_def)
  show ?thesis
    unfolding a w
    by (simp add: find_item_set_attributes f map_of_delete_loop find_item_delete p q)
qed

theorem delete_item_attributes_witness:
  "search_items None None (Some ''/c/2'') ''AND'' demo = Inr [item2]
   \<and> distinct (map item_path (coll_items demo))
   \<and> encode_attributes [(''k1'', Bytes [0x76, 0x31])] = Inr [(''k1'', Str [0x76, 0x31])]
   \<and> delete_item None None (Some ''/c/2'') ''AND'' (Some [(''k1'', Bytes [0x76, 0x31])]) demo
     = (Inr (),
        demo\<lparr>coll_items :=
          [item1, item2\<lparr>item_attributes := [(''k2'', Str [0x76, 0x32])]\<rparr>, item3]\<rparr>)
   \<and> delete_item None None (Some ''/c/2'') ''AND'' None demo
     = (Inr (), demo\<lparr>coll_items := [item1, item3]\<rparr>)
   \<and> search_items None None (Some ''/c/2'') ''AND''
        (snd (delete_item None None (Some ''/c/2'') ''AND'' None demo))
     = Inr []"
proof -
  have s: "search_items None None (Some ''/c/2'') ''AND'' demo = Inr [item2]"
    by (simp add: search_items_def get_all_items_def encode_attributes_def demo_defs)
  have n: "[(''k1'', Bytes [0x76, 0x31])] \<noteq> []" by simp
  have d: "delete_item None None (Some ''/c/2'') ''AND'' None demo
             = (Inr (), demo\<lparr>coll_items := [item1, item3]\<rparr>)"
    unfolding delete_item_def s by (simp add: item_delete_def demo_defs)
  have "search_items None None (Some ''/c/2'') ''AND'' (demo\<lparr>coll_items := [item1, item3]\<rparr>)
          = Inr []"
    by (simp add: search_items_def get_all_items_def encode_attributes_def demo_defs)
  with d delete_item_attributes [OF s demo_paths n encode_k1]
  show ?thesis
    unfolding delete_item_def s
    by (simp add: encode_k1 item_get_attributes_def find_item_def item_set_attributes_def
        item_delete_def demo_defs)
qed

section \<open>Not found, and the items that are not the first match\<close>

lemma dict_comp_error: "dict_comp f a = Inl e \<Longrightarrow> \<exists>v. f v = Inl e"
proof (induction a)
  case Nil
  then show ?case by simp
next
  case (Cons kv a)
  obtain k v where kv: "kv = (k, v)" by (cases kv)
  from Cons show ?case
    by (auto simp: kv split: sum.split_asm)
qed

lemma encode_attributes_error: "encode_attributes a = Inl e \<Longrightarrow> e = UnicodeDecodeError"
proof -
  assume "encode_attributes a = Inl e"
  then obtain v where "encode_value v = Inl e"
    unfolding encode_attributes_def by (blast dest: dict_comp_error)
  then show ?thesis
    by (auto simp: encode_value_def bytes_decode_def split: val.split_asm option.split_asm)
qed

lemma search_items_error:
  "search_items attributes label path logic c = Inl e \<Longrightarrow> e = UnicodeDecodeError"
  by (auto simp: search_items_def dest: encode_attributes_error split: sum.split_asm)

lemma item_get_attributes_error:
  "item_get_attributes c p = Inl e \<Longrightarrow> e = ItemNotFoundException"
  by (auto simp: item_get_attributes_def split: option.split_asm)

lemma update_item_not_found:
  "(fst (update_item attributes new_secret new_attributes label path logic merge c)
      = Inl (ValueError ''Item not found''))
   = (search_items attributes label path logic c = Inr [])"
proof (cases "search_items attributes label path logic c")
  case (Inl e)
  then show ?thesis
    using search_items_error [OF Inl] by (simp add: update_item_def)
next
  case (Inr ms)
  show ?thesis
  proof (cases ms)
    case Nil
    with Inr show ?thesis by (simp add: update_item_def)
  next
    case (Cons it rest)
    with Inr show ?thesis
      by (auto simp: update_item_def Let_def
          dest: encode_attributes_error item_get_attributes_error
          split: option.split sum.split)
  qed
qed

lemma delete_item_not_found:
  "(fst (delete_item attributes label path logic delete_attributes c)
      = Inl (ValueError ''Item not found''))
   = (search_items attributes label path logic c = Inr [])"
proof (cases "search_items attributes label path logic c")
  case (Inl e)
  then show ?thesis
    using search_items_error [OF Inl] by (simp add: delete_item_def)
next
  case (Inr ms)
  show ?thesis
  proof (cases ms)
    case Nil
    with Inr show ?thesis by (simp add: delete_item_def)
  next
    case (Cons it rest)
    with Inr show ?thesis
      by (auto simp: delete_item_def
          dest: encode_attributes_error item_get_attributes_error
          split: option.split sum.split)
  qed
qed

lemma update_item_others:
  assumes "search_items attributes label path logic c = Inr (it # rest)"
  shows "filter (\<lambda>x. item_path x \<noteq> item_path it)
           (coll_items (snd (update_item attributes new_secret new_attributes label path
                               logic merge c)))
         = filter (\<lambda>x. item_path x \<noteq> item_path it) (coll_items c)"
  using assms
  by (auto simp: update_item_def Let_def others_set_secret others_set_attributes
      split: option.split sum.split)

lemma delete_item_others:
  assumes "search_items attributes label path logic c = Inr (it # rest)"
  shows "filter (\<lambda>x. item_path x \<noteq> item_path it)
           (coll_items (snd (delete_item attributes label path logic delete_attributes c)))
         = filter (\<lambda>x. item_path x \<noteq> item_path it) (coll_items c)"
  using assms
  by (auto simp: delete_item_def others_delete others_set_attributes
      split: option.split sum.split)

text \<open>
  C4. \<^verbatim>\<open>update_item\<close> and \<^verbatim>\<open>delete_item\<close> raise \<^verbatim>\<open>ValueError("Item not found")\<close>
  exactly when \<^verbatim>\<open>search_items\<close> returns the empty list, and then leave the collection
  as it was. When \<^verbatim>\<open>search_items\<close> returns \<open>it # rest\<close>, the items of the collection
  other than \<open>it\<close> are afterwards what they were, in the same order: only the first
  match is touched.
\<close>

theorem not_found_and_first_match_only:
  "((fst (update_item attributes new_secret new_attributes label path logic merge c)
       = Inl (ValueError ''Item not found''))
     = (search_items attributes label path logic c = Inr []))
   \<and> ((fst (delete_item attributes label path logic delete_attributes c)
         = Inl (ValueError ''Item not found''))
       = (search_items attributes label path logic c = Inr []))
   \<and> (search_items attributes label path logic c = Inr [] \<longrightarrow>
        snd (update_item attributes new_secret new_attributes label path logic merge c) = c
        \<and> snd (delete_item attributes label path logic delete_attributes c) = c)
   \<and> (\<forall>it rest.
        search_items attributes label path logic c = Inr (it # rest)
        \<and> distinct (map item_path (coll_items c)) \<longrightarrow>
          it \<in> set (coll_items c)
          \<and> filter (\<lambda>x. item_path x \<noteq> item_path it)
                (coll_items (snd (update_item attributes new_secret new_attributes label
                                    path logic merge c)))
              = filter (\<lambda>x. x \<noteq> it) (coll_items c)
          \<and> filter (\<lambda>x. item_path x \<noteq> item_path it)
                (coll_items (snd (delete_item attributes label path logic
                                    delete_attributes c)))
              = filter (\<lambda>x. x \<noteq> it) (coll_items c))"
proof (intro conjI allI impI)
  show "(fst (update_item attributes new_secret new_attributes label path logic merge c)
           = Inl (ValueError ''Item not found''))
        = (search_items attributes label path logic c = Inr [])"
    by (rule update_item_not_found)
  show "(fst (delete_item attributes label path logic delete_attributes c)
           = Inl (ValueError ''Item not found''))
        = (search_items attributes label path logic c = Inr [])"
    by (rule delete_item_not_found)
next
  assume "search_items attributes label path logic c = Inr []"
  then show "snd (update_item attributes new_secret new_attributes label path logic merge c) = c"
    and "snd (delete_item attributes label path logic delete_attributes c) = c"
    by (simp_all add: update_item_def delete_item_def)
next
  fix it rest
  assume h: "search_items attributes label path logic c = Inr (it # rest)
             \<and> distinct (map item_path (coll_items c))"
  then have s: "search_items attributes label path logic c = Inr (it # rest)"
    and d: "distinct (map item_path (coll_items c))" by simp_all
  from s show mem: "it \<in> set (coll_items c)" by (rule search_items_member)
  show "filter (\<lambda>x. item_path x \<noteq> item_path it)
          (coll_items (snd (update_item attributes new_secret new_attributes label path
                              logic merge c)))
        = filter (\<lambda>x. x \<noteq> it) (coll_items c)"
    using update_item_others [OF s] others_distinct [OF mem d] by simp
  show "filter (\<lambda>x. item_path x \<noteq> item_path it)
          (coll_items (snd (delete_item attributes label path logic delete_attributes c)))
        = filter (\<lambda>x. x \<noteq> it) (coll_items c)"
    using delete_item_others [OF s] others_distinct [OF mem d] by simp
qed


theorem not_found_and_first_match_only_witness:
  "search_items None (Some ''ftp'') None ''AND'' demo = Inr []
   \<and> distinct (map item_path (coll_items demo))
   \<and> update_item None (Some ''new'') None (Some ''ftp'') None ''AND'' True demo
     = (Inl (ValueError ''Item not found''), demo)
   \<and> delete_item None (Some ''ftp'') None ''AND'' None demo
     = (Inl (ValueError ''Item not found''), demo)
   \<and> search_items None (Some ''mail'') None ''AND'' demo = Inr [item1, item2]
   \<and> update_item None (Some ''new'') None (Some ''mail'') None ''AND'' True demo
     = (Inr (), demo\<lparr>coll_items := [item1\<lparr>item_secret := ''new''\<rparr>, item2, item3]\<rparr>)
   \<and> delete_item None (Some ''mail'') None ''AND'' None demo
     = (Inr (), demo\<lparr>coll_items := [item2, item3]\<rparr>)"
  using
    not_found_and_first_match_only
      [of None "Some ''new''" None "Some ''ftp''" None "''AND''" True demo None]
    not_found_and_first_match_only
      [of None "Some ''new''" None "Some ''mail''" None "''AND''" True demo None]
  unfolding update_item_def delete_item_def demo_search_mail demo_search_none
  by (simp add: item_set_secret_def item_delete_def demo_defs)

section \<open>Reading items\<close>

lemma item_entries_decoded:
  "map (\<lambda>it. decode_attributes (item_attributes it)) ms = map Inr as
   \<Longrightarrow> item_entries ms
        = Inr (map (\<lambda>(it, a). \<lparr>entry_label = item_label it, entry_attributes = a,
                              entry_secret = item_secret it\<rparr>) (zip ms as))"
proof (induction ms arbitrary: as)
  case Nil
  then show ?case by simp
next
  case (Cons it ms)
  from Cons.prems obtain a as' where as: "as = a # as'"
    and a: "decode_attributes (item_attributes it) = Inr a"
    and r: "map (\<lambda>it. decode_attributes (item_attributes it)) ms = map Inr as'"
    by (cases as) auto
  from Cons.IH [OF r] a show ?case by (simp add: as item_entry_def)
qed

text \<open>
  C8, as stated, fails for \<open>multiple\<close> true and zero matches: the result is \<^verbatim>\<open>None\<close>,
  not the (empty) list of the matches' records.
\<close>

theorem read_item_multiple_counterexample:
  "search_items None (Some ''ftp'') None ''AND'' demo = Inr []
   \<and> read_item None (Some ''ftp'') None ''AND'' True demo = Inr None
   \<and> read_item None (Some ''ftp'') None ''AND'' True demo \<noteq> Inr (Some (Many []))"
  unfolding read_item_def demo_search_none by simp

text \<open>
  C8, amended. When \<^verbatim>\<open>search_items\<close> returns no item, \<^verbatim>\<open>read_item\<close> returns
  \<^verbatim>\<open>None\<close>, whatever \<open>multiple\<close> is. When it returns at least one item: with
  \<open>multiple\<close> false the result is the record of the first match alone (its label, its
  decoded attributes, its secret); with \<open>multiple\<close> true it is the list of the records
  of all matches, in enumeration order.
\<close>

theorem read_item_results:
  assumes "search_items attributes label path logic c = Inr ms"
  shows "(ms = [] \<longrightarrow> read_item attributes label path logic multiple c = Inr None)
    \<and> (\<forall>it rest a.
          ms = it # rest \<and> decode_attributes (item_attributes it) = Inr a \<longrightarrow>
            read_item attributes label path logic False c
              = Inr (Some (One \<lparr>entry_label = item_label it, entry_attributes = a,
                               entry_secret = item_secret it\<rparr>)))
    \<and> (\<forall>as.
          ms \<noteq> [] \<and> map (\<lambda>it. decode_attributes (item_attributes it)) ms = map Inr as \<longrightarrow>
            read_item attributes label path logic True c
              = Inr (Some (Many (map (\<lambda>(it, a). \<lparr>entry_label = item_label it,
                                                  entry_attributes = a,
                                                  entry_secret = item_secret it\<rparr>)
                                   (zip ms as)))))"
proof (intro conjI allI impI)
  assume "ms = []"
  with assms show "read_item attributes label path logic multiple c = Inr None"
    by (simp add: read_item_def)
next
  fix it rest a
  assume "ms = it # rest \<and> decode_attributes (item_attributes it) = Inr a"
  with assms show "read_item attributes label path logic False c
      = Inr (Some (One \<lparr>entry_label = item_label it, entry_attributes = a,
                       entry_secret = item_secret it\<rparr>))"
    by (simp add: read_item_def item_entry_def)
next
  fix as
  assume h: "ms \<noteq> [] \<and> map (\<lambda>it. decode_attributes (item_attributes it)) ms = map Inr as"
  then obtain it rest where ms: "ms = it # rest" by (cases ms) auto
  from h have "item_entries ms
      = Inr (map (\<lambda>(it, a). \<lparr>entry_label = item_label it, entry_attributes = a,
                            entry_secret = item_secret it\<rparr>) (zip ms as))"
    by (simp add: item_entries_decoded)
  with assms show "read_item attributes label path logic True c
      = Inr (Some (Many (map (\<lambda>(it, a). \<lparr>entry_label = item_label it,
                                          entry_attributes = a,
                                          entry_secret = item_secret it\<rparr>)
                           (zip ms as))))"
    unfolding read_item_def ms by simp
qed

theorem read_item_results_witness:
  "search_items None (Some ''ftp'') None ''AND'' demo = Inr []
   \<and> search_items None (Some ''mail'') None ''AND'' demo = Inr [item1, item2]
   \<and> read_item None (Some ''ftp'') None ''AND'' False demo = Inr None
   \<and> read_item None (Some ''mail'') None ''AND'' False demo
     = Inr (Some (One \<lparr>entry_label = ''mail'',
                      entry_attributes = [(''k1'', Bytes [0x76, 0x31])],
                      entry_secret = ''s1''\<rparr>))
   \<and> read_item None (Some ''mail'') None ''AND'' True demo
     = Inr (Some (Many
         [\<lparr>entry_label = ''mail'', entry_attributes = [(''k1'', Bytes [0x76, 0x31])],
            entry_secret = ''s1''\<rparr>,
          \<lparr>entry_label = ''mail'',
            entry_attributes = [(''k1'', Bytes [0x76, 0x31]), (''k2'', Bytes [0x76, 0x32])],
            entry_secret = ''s2''\<rparr>]))"
  using read_item_results [OF demo_search_none, of False]
    read_item_results [OF demo_search_mail, of False]
  unfolding read_item_def demo_search_mail demo_search_none
  by (simp add: item_entry_def codec_defs demo_defs)

end
